theory Spec2Isabelle
  imports Main "HOL-Library.Char_ord" "HOL-Library.List_Lexorder" "HOL-Library.Multiset"
begin

section \<open>Data model: DataFrames of nullable cells\<close>

text \<open>
  The functions of \<open>src/tools/utils.py\<close> transform PySpark DataFrames. A DataFrame is
  modelled as its list of column names together with its list of rows; a row is the list
  of its cells in column order and a cell is either null (\<open>None\<close>) or a value. The order
  of the list \<open>rows\<close> stands for the order in which the execution engine happens to hold
  the rows: PySpark gives no meaning to it, and no operation below reads it except to
  break ties that the program itself leaves open.

  Values are integers (also used for timestamps, as a number of time units) and strings.
  A Spark column has one type, so values of different constructors are never compared
  by the engine; \<open>val_less\<close> places integers below strings only to stay total.
\<close>

datatype val = IntV int | StrV string

type_synonym cell = "val option"

type_synonym row = "cell list"

record dataframe =
  columns :: "string list"
  rows :: "row list"

datatype error = AttributeError | AnalysisException

fun val_less :: "val \<Rightarrow> val \<Rightarrow> bool" where
  "val_less (IntV a) (IntV b) = (a < b)"
| "val_less (StrV a) (StrV b) = (a < b)"
| "val_less (IntV a) (StrV b) = True"
| "val_less (StrV a) (IntV b) = False"

definition well_formed :: "dataframe \<Rightarrow> bool" where
  "well_formed df = list_all (\<lambda>r. length r = length (columns df)) (rows df)"

definition cell_at :: "row \<Rightarrow> nat \<Rightarrow> cell" where
  "cell_at r i = (if i < length r then r ! i else None)"

text \<open>
  \<open>F.col(c)\<close> used against a DataFrame resolves to the one column named \<open>c\<close>; Spark raises
  an AnalysisException when no column or more than one column has that name.
\<close>

definition positions :: "string list \<Rightarrow> string \<Rightarrow> nat list" where
  "positions cols c = filter (\<lambda>i. cols ! i = c) [0..<length cols]"

definition resolve :: "string list \<Rightarrow> string \<Rightarrow> error + nat" where
  "resolve cols c = (case positions cols c of [i] \<Rightarrow> Inr i | _ \<Rightarrow> Inl AnalysisException)"

section \<open>Deduplication: \<open>dedup_by\<close>\<close>

text \<open>
  \<open>DataFrame.dropDuplicates(subset)\<close> keeps one row of every class of rows that agree on
  the columns of \<open>subset\<close> (nulls agree with nulls), and raises an AnalysisException when
  a name of \<open>subset\<close> is no column. The representative kept is the first row of its class
  in the engine's order.
\<close>

definition project :: "string list \<Rightarrow> string list \<Rightarrow> row \<Rightarrow> cell list" where
  "project cols names r = map snd (filter (\<lambda>(c, v). c \<in> set names) (zip cols r))"

function keep_first :: "('a \<Rightarrow> 'b) \<Rightarrow> 'a list \<Rightarrow> 'a list" where
  "keep_first f [] = []"
| "keep_first f (x # xs) = x # keep_first f (filter (\<lambda>y. f y \<noteq> f x) xs)"
  by pat_completeness auto
termination
  by (relation "measure (\<lambda>(f, xs). length xs)") (auto simp: less_Suc_eq_le)

definition dropDuplicates :: "dataframe \<Rightarrow> string list \<Rightarrow> error + dataframe" where
  "dropDuplicates df names =
     (if \<exists>c \<in> set names. c \<notin> set (columns df) then Inl AnalysisException
      else Inr (df\<lparr>rows := keep_first (project (columns df) names) (rows df)\<rparr>))"

text \<open>
  \<open>dedup_by(spark_session, df, *keys)\<close>: \<open>df.dropDuplicates(list(keys) if keys else df.columns)\<close>.
  The session argument is not used by the body.
\<close>

definition dedup_by :: "dataframe \<Rightarrow> string list \<Rightarrow> error + dataframe" where
  "dedup_by df keys = dropDuplicates df (if keys \<noteq> [] then keys else columns df)"

section \<open>Ranking and resolution: \<open>normalize_cdc_latest\<close>\<close>

text \<open>
  \<open>Column.desc_nulls_last()\<close> builds a descending sort order in which null follows every
  value. \<open>sorts_before_cell a b\<close> says that a cell \<open>a\<close> comes strictly before \<open>b\<close> under it.
\<close>

datatype sort_order = DescNullsLast string

fun sorts_before_cell :: "cell \<Rightarrow> cell \<Rightarrow> bool" where
  "sorts_before_cell (Some x) (Some y) = val_less y x"
| "sorts_before_cell (Some x) None = True"
| "sorts_before_cell None b = False"

definition desc_nulls_last :: "string \<Rightarrow> sort_order" where
  "desc_nulls_last c = DescNullsLast c"

text \<open>
  Line 75 of the source calls \<open>desc_null_lasts\<close> on a PySpark \<open>Column\<close>. The class has no
  such method (its methods are \<open>desc_nulls_last\<close>, \<open>desc_nulls_first\<close>, ...), and a
  \<open>Column\<close> is not subscriptable by attribute name, so the call raises.
\<close>

definition desc_null_lasts :: "string \<Rightarrow> error + sort_order" where
  "desc_null_lasts c = Inl AttributeError"

text \<open>A list comprehension over fallible calls: the first exception ends it.\<close>

fun comprehension :: "('a \<Rightarrow> error + 'b) \<Rightarrow> 'a list \<Rightarrow> error + 'b list" where
  "comprehension g [] = Inr []"
| "comprehension g (x # xs) =
     (case g x of Inl e \<Rightarrow> Inl e
      | Inr v \<Rightarrow> (case comprehension g xs of Inl e \<Rightarrow> Inl e | Inr vs \<Rightarrow> Inr (v # vs)))"

definition order_exprs :: "string \<Rightarrow> string \<Rightarrow> string list \<Rightarrow> error + sort_order list" where
  "order_exprs seq_col ts_col tiebreakers =
     (case comprehension desc_null_lasts tiebreakers of
        Inl e \<Rightarrow> Inl e
      | Inr rest \<Rightarrow> Inr ([desc_nulls_last seq_col, desc_nulls_last ts_col] @ rest))"

text \<open>\<open>Window.partitionBy(key_col).orderBy(*order_exprs)\<close>.\<close>

record window =
  partitionBy :: string
  orderBy :: "sort_order list"

text \<open>
  The order of a window over resolved column positions: lexicographic in the listed
  columns, each descending with nulls last.
\<close>

fun sorts_before :: "nat list \<Rightarrow> row \<Rightarrow> row \<Rightarrow> bool" where
  "sorts_before [] a b = False"
| "sorts_before (i # is) a b =
     (sorts_before_cell (cell_at a i) (cell_at b i)
      \<or> (cell_at a i = cell_at b i \<and> sorts_before is a b))"

text \<open>
  Rows of one partition are sorted by the window order. Rows that the order does not
  separate keep the order in which the engine holds them (a stable insertion sort);
  Spark promises nothing about them.
\<close>

fun insert_row :: "nat list \<Rightarrow> row \<Rightarrow> row list \<Rightarrow> row list" where
  "insert_row ord r [] = [r]"
| "insert_row ord r (q # qs) =
     (if sorts_before ord q r then q # insert_row ord r qs else r # q # qs)"

fun sort_rows :: "nat list \<Rightarrow> row list \<Rightarrow> row list" where
  "sort_rows ord [] = []"
| "sort_rows ord (r # rs) = insert_row ord r (sort_rows ord rs)"

text \<open>\<open>F.row_number()\<close> numbers the sorted rows of a partition 1, 2, 3, ...\<close>

definition number_rows :: "row list \<Rightarrow> (row \<times> int) list" where
  "number_rows rs = zip rs (map int [1..<Suc (length rs)])"

definition row_number_over :: "nat \<Rightarrow> nat list \<Rightarrow> row list \<Rightarrow> (row \<times> int) list" where
  "row_number_over k ord rs =
     concat (map (\<lambda>kv. number_rows (sort_rows ord (filter (\<lambda>r. cell_at r k = kv) rs)))
                 (remdups (map (\<lambda>r. cell_at r k) rs)))"

fun resolve_order :: "string list \<Rightarrow> sort_order \<Rightarrow> error + nat" where
  "resolve_order cols (DescNullsLast c) = resolve cols c"

text \<open>
  \<open>df.withColumn(name, value)\<close> replaces every column called \<open>name\<close> when there is one,
  and appends a new last column otherwise.
\<close>

definition set_cell :: "string list \<Rightarrow> string \<Rightarrow> cell \<Rightarrow> row \<Rightarrow> row" where
  "set_cell cols name v r =
     (if name \<in> set cols then map (\<lambda>(c, x). if c = name then v else x) (zip cols r)
      else r @ [v])"

definition withColumn_row_number :: "dataframe \<Rightarrow> string \<Rightarrow> window \<Rightarrow> error + dataframe" where
  "withColumn_row_number df name w =
     (case resolve (columns df) (partitionBy w) of
        Inl e \<Rightarrow> Inl e
      | Inr k \<Rightarrow>
         (case comprehension (resolve_order (columns df)) (orderBy w) of
            Inl e \<Rightarrow> Inl e
          | Inr ord \<Rightarrow>
              Inr \<lparr>columns = (if name \<in> set (columns df) then columns df else columns df @ [name]),
                   rows = map (\<lambda>(r, n). set_cell (columns df) name (Some (IntV n)) r)
                              (row_number_over k ord (rows df))\<rparr>))"

text \<open>\<open>df.filter(F.col(name) == v)\<close> keeps the rows whose cell is the value \<open>v\<close>.\<close>

definition filter_eq :: "dataframe \<Rightarrow> string \<Rightarrow> val \<Rightarrow> error + dataframe" where
  "filter_eq df name v =
     (case resolve (columns df) name of
        Inl e \<Rightarrow> Inl e
      | Inr i \<Rightarrow> Inr (df\<lparr>rows := filter (\<lambda>r. cell_at r i = Some v) (rows df)\<rparr>))"

text \<open>\<open>df.drop(name)\<close> removes every column called \<open>name\<close>; it is a no-op when there is none.\<close>

definition drop_cells :: "string list \<Rightarrow> string \<Rightarrow> row \<Rightarrow> row" where
  "drop_cells cols name r = map snd (filter (\<lambda>(c, x). c \<noteq> name) (zip cols r))"

definition drop_column :: "dataframe \<Rightarrow> string \<Rightarrow> dataframe" where
  "drop_column df name =
     \<lparr>columns = filter (\<lambda>c. c \<noteq> name) (columns df),
      rows = map (drop_cells (columns df) name) (rows df)\<rparr>"

text \<open>
  \<open>normalize_cdc_latest(spark_session, df, key_col, seq_col, ts_col, tiebreakers)\<close>.
  The source's defaults are \<open>seq_col = "seq_num"\<close>, \<open>ts_col = "event_time"\<close> and
  \<open>tiebreakers = None\<close>; the caller of the model passes them. The statements follow the
  source line by line: \<open>tiebreakers or []\<close>, \<open>base\<close>, \<open>order_exprs\<close>, \<open>w\<close>, \<open>ranked\<close>,
  \<open>latest\<close>.
\<close>

definition normalize_cdc_latest ::
  "dataframe \<Rightarrow> string \<Rightarrow> string \<Rightarrow> string \<Rightarrow> string list option \<Rightarrow> error + dataframe" where
  "normalize_cdc_latest df key_col seq_col ts_col tiebreakers =
     (let tbs = (case tiebreakers of None \<Rightarrow> [] | Some l \<Rightarrow> l) in
      case dedup_by df [] of
        Inl e \<Rightarrow> Inl e
      | Inr base \<Rightarrow>
         (case order_exprs seq_col ts_col tbs of
            Inl e \<Rightarrow> Inl e
          | Inr oe \<Rightarrow>
             (let w = \<lparr>partitionBy = key_col, orderBy = oe\<rparr> in
              case withColumn_row_number base ''_rn'' w of
                Inl e \<Rightarrow> Inl e
              | Inr ranked \<Rightarrow>
                 (case filter_eq ranked ''_rn'' (IntV 1) of
                    Inl e \<Rightarrow> Inl e
                  | Inr kept \<Rightarrow> Inr (drop_column kept ''_rn'')))))"

section \<open>Text normalisation: \<open>normalize_ascii_lower\<close>\<close>









section \<open>Notions used to state the properties\<close>

text \<open>The cell of a row under a column name (null when the name does not resolve).\<close>

definition cell_of :: "dataframe \<Rightarrow> row \<Rightarrow> string \<Rightarrow> cell" where
  "cell_of df r c = (case resolve (columns df) c of Inl e \<Rightarrow> None | Inr i \<Rightarrow> cell_at r i)"

text \<open>
  The resolution order of the specification over a list of ordering columns: the first
  column decides, descending, a null after every value; equal cells pass the decision
  to the next column. \<open>outranks df cs a b\<close>: row \<open>a\<close> comes strictly before row \<open>b\<close>.
\<close>

fun outranks :: "dataframe \<Rightarrow> string list \<Rightarrow> row \<Rightarrow> row \<Rightarrow> bool" where
  "outranks df [] a b = False"
| "outranks df (c # cs) a b =
     (case (cell_of df a c, cell_of df b c) of
        (Some x, Some y) \<Rightarrow> val_less y x \<or> (x = y \<and> outranks df cs a b)
      | (Some x, None) \<Rightarrow> True
      | (None, Some y) \<Rightarrow> False
      | (None, None) \<Rightarrow> outranks df cs a b)"


text \<open>
  Row \<open>a\<close> has more complete ranking information than row \<open>b\<close>: the ordering columns in
  which \<open>b\<close> is not null are a proper part of those in which \<open>a\<close> is not null.
\<close>

definition more_complete :: "dataframe \<Rightarrow> string list \<Rightarrow> row \<Rightarrow> row \<Rightarrow> bool" where
  "more_complete df cs a b =
     (set (filter (\<lambda>c. cell_of df b c \<noteq> None) cs) \<subset> set (filter (\<lambda>c. cell_of df a c \<noteq> None) cs))"







section \<open>Example batches\<close>

text \<open>
  CDC rows as the generator of the repository writes them: a key, the operation
  (\<open>I\<close>, \<open>U\<close> or \<open>D\<close>), the sequence number and the event time.
\<close>

definition cdc_columns :: "string list" where
  "cdc_columns = [''id'', ''op'', ''seq_num'', ''event_time'']"

definition event :: "string \<Rightarrow> string \<Rightarrow> cell \<Rightarrow> cell \<Rightarrow> row" where
  "event k opn s t = [Some (StrV k), Some (StrV opn), s, t]"

definition batch :: "row list \<Rightarrow> dataframe" where
  "batch rs = \<lparr>columns = cdc_columns, rows = rs\<rparr>"

section \<open>The window order is a strict weak order\<close>

lemma val_less_irrefl: "\<not> val_less a a"
  by (cases a) auto

lemma val_less_trans: "val_less a b \<Longrightarrow> val_less b c \<Longrightarrow> val_less a c"
  by (cases a; cases b; cases c) auto

lemma val_less_total: "val_less a b \<or> a = b \<or> val_less b a"
  by (cases a; cases b) auto

lemma cell_irrefl: "\<not> sorts_before_cell a a"
  by (cases a) (auto simp: val_less_irrefl)

lemma cell_trans: "sorts_before_cell a b \<Longrightarrow> sorts_before_cell b c \<Longrightarrow> sorts_before_cell a c"
  by (cases a; cases b; cases c) (auto intro: val_less_trans)

lemma cell_total: "sorts_before_cell a b \<or> a = b \<or> sorts_before_cell b a"
  using val_less_total by (cases a; cases b) auto

lemma cell_asym: "sorts_before_cell a b \<Longrightarrow> \<not> sorts_before_cell b a"
  using cell_trans cell_irrefl by blast

lemma sorts_before_irrefl: "\<not> sorts_before ord a a"
  by (induction ord) (auto simp: cell_irrefl)

lemma sorts_before_trans:
  "sorts_before ord a b \<Longrightarrow> sorts_before ord b c \<Longrightarrow> sorts_before ord a c"
proof (induction ord)
  case Nil
  then show ?case by simp
next
  case (Cons i ord)
  then show ?case
    using cell_trans [of "cell_at a i" "cell_at b i" "cell_at c i"] by auto
qed

lemma sorts_before_asym: "sorts_before ord a b \<Longrightarrow> \<not> sorts_before ord b a"
  using sorts_before_trans sorts_before_irrefl by blast

lemma sorts_before_tie:
  "(\<not> sorts_before ord a b \<and> \<not> sorts_before ord b a) = (map (cell_at a) ord = map (cell_at b) ord)"
proof (induction ord)
  case Nil
  then show ?case by simp
next
  case (Cons i ord)
  then show ?case
    using cell_total [of "cell_at a i" "cell_at b i"] cell_irrefl [of "cell_at b i"]
    by auto
qed

lemma sorts_before_cases:
  "sorts_before ord a b \<or> map (cell_at a) ord = map (cell_at b) ord \<or> sorts_before ord b a"
  using sorts_before_tie by blast

lemma sorts_before_cong:
  "map (cell_at a) ord = map (cell_at a') ord \<Longrightarrow> sorts_before ord a b = sorts_before ord a' b"
  "map (cell_at b) ord = map (cell_at b') ord \<Longrightarrow> sorts_before ord a b = sorts_before ord a b'"
  by (induction ord) auto

lemma sorts_before_negtrans:
  "sorts_before ord a c \<Longrightarrow> sorts_before ord a b \<or> sorts_before ord b c"
  using sorts_before_cases [of ord a b] sorts_before_cases [of ord b c]
    sorts_before_trans sorts_before_cong by metis

lemma set_insert_row: "set (insert_row ord r qs) = insert r (set qs)"
  by (induction qs) auto

lemma set_sort_rows: "set (sort_rows ord rs) = set rs"
  by (induction rs) (auto simp: set_insert_row)

lemma sort_rows_Nil: "(sort_rows ord rs = []) = (rs = [])"
  by (metis set_sort_rows set_empty)

lemma hd_insert_row:
  "hd (insert_row ord r qs) = (if qs \<noteq> [] \<and> sorts_before ord (hd qs) r then hd qs else r)"
  by (cases qs) auto

lemma hd_sort_rows_in: "rs \<noteq> [] \<Longrightarrow> hd (sort_rows ord rs) \<in> set rs"
  by (metis hd_in_set set_sort_rows sort_rows_Nil)

lemma hd_sort_rows_top:
  "q \<in> set rs \<Longrightarrow> \<not> sorts_before ord q (hd (sort_rows ord rs))"
proof (induction rs arbitrary: q)
  case Nil
  then show ?case by simp
next
  case (Cons r rs)
  show ?case
  proof (cases "rs = []")
    case True
    with Cons.prems show ?thesis by (simp add: sorts_before_irrefl)
  next
    case False
    let ?m = "hd (sort_rows ord rs)"
    have ne: "sort_rows ord rs \<noteq> []" using False by (simp add: sort_rows_Nil)
    show ?thesis
    proof (cases "sorts_before ord ?m r")
      case True
      then have h: "hd (sort_rows ord (r # rs)) = ?m" using ne by (simp add: hd_insert_row)
      show ?thesis
      proof (cases "q = r")
        case True
        with \<open>sorts_before ord ?m r\<close> h show ?thesis by (simp add: sorts_before_asym)
      next
        case False
        with Cons h show ?thesis by auto
      qed
    next
      case nb: False
      then have h: "hd (sort_rows ord (r # rs)) = r" by (simp add: hd_insert_row)
      show ?thesis
      proof (cases "q = r")
        case True
        with h show ?thesis by (simp add: sorts_before_irrefl)
      next
        case False
        then have "q \<in> set rs" using Cons.prems by simp
        then have "\<not> sorts_before ord q ?m" by (rule Cons.IH)
        with nb sorts_before_negtrans [of ord q r ?m] h show ?thesis by auto
      qed
    qed
  qed
qed

section \<open>Properties of deduplication and row numbering\<close>

lemma set_keep_first_subset: "set (keep_first f xs) \<subseteq> set xs"
  by (induction f xs rule: keep_first.induct) auto

lemma image_keep_first: "f ` set (keep_first f xs) = f ` set xs"
proof (induction f xs rule: keep_first.induct)
  case (1 f)
  then show ?case by simp
next
  case (2 f x xs)
  have "f ` set (x # xs) = insert (f x) (f ` set (filter (\<lambda>y. f y \<noteq> f x) xs))"
    by auto
  with 2 show ?case by simp
qed

lemma distinct_map_keep_first: "distinct (map f (keep_first f xs))"
proof (induction f xs rule: keep_first.induct)
  case (1 f)
  then show ?case by simp
next
  case (2 f x xs)
  have "f x \<notin> f ` set (filter (\<lambda>y. f y \<noteq> f x) xs)" by auto
  then have "f x \<notin> f ` set (keep_first f (filter (\<lambda>y. f y \<noteq> f x) xs))"
    unfolding image_keep_first .
  with 2 show ?case by simp
qed

lemma distinct_keep_first: "distinct (keep_first f xs)"
  using distinct_map_keep_first [of f xs] by (simp add: distinct_map)

lemma set_keep_first_inj: "inj_on f (set xs) \<Longrightarrow> set (keep_first f xs) = set xs"
proof
  show "set (keep_first f xs) \<subseteq> set xs" by (rule set_keep_first_subset)
next
  assume inj: "inj_on f (set xs)"
  show "set xs \<subseteq> set (keep_first f xs)"
  proof
    fix x assume x: "x \<in> set xs"
    then have "f x \<in> f ` set (keep_first f xs)" by (simp add: image_keep_first)
    then obtain y where y: "y \<in> set (keep_first f xs)" "f x = f y" by auto
    then have "y \<in> set xs" using set_keep_first_subset by fastforce
    with inj x y have "x = y" by (auto dest: inj_onD)
    with y show "x \<in> set (keep_first f xs)" by simp
  qed
qed

lemma keep_first_filter:
  "keep_first f (filter (\<lambda>y. f y \<noteq> a) xs) = filter (\<lambda>y. f y \<noteq> a) (keep_first f xs)"
proof (induction f xs rule: keep_first.induct)
  case (1 f)
  then show ?case by simp
next
  case (2 f x xs)
  have comm: "filter (\<lambda>y. f y \<noteq> f x) (filter (\<lambda>y. f y \<noteq> a) xs)
            = filter (\<lambda>y. f y \<noteq> a) (filter (\<lambda>y. f y \<noteq> f x) xs)"
    by (simp add: conj_commute)
  show ?case
  proof (cases "f x = a")
    case True
    have "filter (\<lambda>y. f y \<noteq> a) (keep_first f (filter (\<lambda>y. f y \<noteq> f x) xs))
          = keep_first f (filter (\<lambda>y. f y \<noteq> a) (filter (\<lambda>y. f y \<noteq> f x) xs))"
      using 2 by simp
    also have "\<dots> = keep_first f (filter (\<lambda>y. f y \<noteq> a) xs)"
      using True by simp
    finally show ?thesis using True by simp
  next
    case False
    then show ?thesis using 2 comm by simp
  qed
qed

lemma keep_first_idem: "keep_first f (keep_first f xs) = keep_first f xs"
proof (induction f xs rule: keep_first.induct)
  case (1 f)
  then show ?case by simp
next
  case (2 f x xs)
  let ?ys = "filter (\<lambda>y. f y \<noteq> f x) xs"
  have "filter (\<lambda>y. f y \<noteq> f x) (keep_first f ?ys) = keep_first f (filter (\<lambda>y. f y \<noteq> f x) ?ys)"
    by (simp only: keep_first_filter)
  also have "\<dots> = keep_first f ?ys" by simp
  finally show ?case using 2 by simp
qed


lemma keep_first_cong:
  "(\<And>x y. x \<in> set xs \<Longrightarrow> y \<in> set xs \<Longrightarrow> (f x = f y) = (g x = g y))
   \<Longrightarrow> keep_first f xs = keep_first g xs"
proof (induction f xs rule: keep_first.induct)
  case (1 f)
  then show ?case by simp
next
  case (2 f x xs)
  have a: "filter (\<lambda>y. f y \<noteq> f x) xs = filter (\<lambda>y. g y \<noteq> g x) xs"
    using "2.prems" by (intro filter_cong) auto
  have "keep_first f (filter (\<lambda>y. f y \<noteq> f x) xs) = keep_first g (filter (\<lambda>y. f y \<noteq> f x) xs)"
    using "2.prems" by (intro "2.IH") auto
  with a show ?case by simp
qed

lemma project_all: "length r = length cols \<Longrightarrow> project cols cols r = r"
proof -
  assume len: "length r = length cols"
  have "filter (\<lambda>(c, v). c \<in> set cols) (zip cols r) = zip cols r"
    by (rule filter_True) (auto dest: set_zip_leftD)
  then show ?thesis using len by (simp add: project_def)
qed

lemma keep_first_project_all:
  assumes "list_all (\<lambda>r. length r = length cols) rs"
  shows "keep_first (project cols cols) rs = keep_first (\<lambda>r. r) rs"
proof (rule keep_first_cong)
  fix x y assume "x \<in> set rs" "y \<in> set rs"
  with assms have "project cols cols x = x" "project cols cols y = y"
    by (auto simp: list_all_iff project_all)
  then show "(project cols cols x = project cols cols y) = (x = y)" by simp
qed

lemma dedup_by_default:
  "well_formed df \<Longrightarrow> dedup_by df [] = Inr (df\<lparr>rows := keep_first (\<lambda>r. r) (rows df)\<rparr>)"
  by (simp add: dedup_by_def dropDuplicates_def well_formed_def keep_first_project_all)

lemma filter_number_rows:
  "filter (\<lambda>(r, n). n = 1) (number_rows rs) = (case rs of [] \<Rightarrow> [] | r # qs \<Rightarrow> [(r, 1)])"
proof (cases rs)
  case Nil
  then show ?thesis by (simp add: number_rows_def)
next
  case (Cons r qs)
  have up: "[1..<Suc (Suc (length qs))] = 1 # [Suc 1..<Suc (Suc (length qs))]"
    by (rule upt_conv_Cons) simp
  have rest: "filter (\<lambda>(r, n). n = 1) (zip qs (map int [Suc 1..<Suc (Suc (length qs))])) = []"
    by (auto simp: filter_empty_conv dest!: set_zip_rightD)
  have "number_rows rs = (r, 1) # zip qs (map int [Suc 1..<Suc (Suc (length qs))])"
    unfolding number_rows_def Cons length_Cons up by simp
  with Cons rest show ?thesis by simp
qed

lemma filter_row_number_over:
  "filter (\<lambda>(r, n). n = 1) (row_number_over k ord rs)
   = map (\<lambda>kv. (hd (sort_rows ord (filter (\<lambda>r. cell_at r k = kv) rs)), 1))
         (remdups (map (\<lambda>r. cell_at r k) rs))"
proof -
  have part: "filter (\<lambda>(r, n). n = 1) (number_rows (sort_rows ord (filter (\<lambda>r. cell_at r k = kv) rs)))
        = [(hd (sort_rows ord (filter (\<lambda>r. cell_at r k = kv) rs)), 1)]"
    if "kv \<in> set (map (\<lambda>r. cell_at r k) rs)" for kv
  proof -
    from that have "filter (\<lambda>r. cell_at r k = kv) rs \<noteq> []"
      by (auto simp: filter_empty_conv)
    then have "sort_rows ord (filter (\<lambda>r. cell_at r k = kv) rs) \<noteq> []"
      by (simp add: sort_rows_Nil)
    then show ?thesis
      by (cases "sort_rows ord (filter (\<lambda>r. cell_at r k = kv) rs)") (auto simp: filter_number_rows)
  qed
  have "filter (\<lambda>(r, n). n = 1) (row_number_over k ord rs)
      = concat (map (\<lambda>kv. filter (\<lambda>(r, n). n = 1) (number_rows (sort_rows ord (filter (\<lambda>r. cell_at r k = kv) rs))))
                 (remdups (map (\<lambda>r. cell_at r k) rs)))"
    by (simp add: row_number_over_def filter_concat comp_def)
  also have "\<dots> = concat (map (\<lambda>kv. [(hd (sort_rows ord (filter (\<lambda>r. cell_at r k = kv) rs)), 1)])
                 (remdups (map (\<lambda>r. cell_at r k) rs)))"
    using part by (intro arg_cong [where f = concat] map_cong) auto
  also have "\<dots> = map (\<lambda>kv. (hd (sort_rows ord (filter (\<lambda>r. cell_at r k = kv) rs)), 1))
         (remdups (map (\<lambda>r. cell_at r k) rs))"
    by (induction "remdups (map (\<lambda>r. cell_at r k) rs)") auto
  finally show ?thesis .
qed

section \<open>A closed form of \<open>normalize_cdc_latest\<close>\<close>

lemma resolve_Inr: "resolve cols c = Inr i \<Longrightarrow> i < length cols \<and> cols ! i = c"
proof -
  assume "resolve cols c = Inr i"
  then have "positions cols c = [i]"
    by (auto simp: resolve_def split: list.splits)
  then have "i \<in> set (positions cols c)" by simp
  then show ?thesis by (simp add: positions_def)
qed

lemma resolve_fresh: "name \<notin> set cols \<Longrightarrow> resolve (cols @ [name]) name = Inr (length cols)"
proof -
  assume fresh: "name \<notin> set cols"
  have "filter (\<lambda>i. (cols @ [name]) ! i = name) [0..<length cols] = []"
    using fresh by (auto simp: filter_empty_conv nth_append)
  then show ?thesis by (simp add: resolve_def positions_def)
qed

lemma cell_at_set_cell:
  assumes len: "length r = length cols"
    and res: "resolve (if name \<in> set cols then cols else cols @ [name]) name = Inr i"
  shows "cell_at (set_cell cols name v r) i = v"
proof (cases "name \<in> set cols")
  case True
  with res have i: "i < length cols" "cols ! i = name" using resolve_Inr by fastforce+
  with True len show ?thesis by (simp add: set_cell_def cell_at_def)
next
  case False
  with res have "i = length r" using len by (simp add: resolve_fresh)
  with False show ?thesis by (simp add: set_cell_def cell_at_def)
qed

lemma drop_cells_set_cell_old:
  "length r = length cols \<Longrightarrow>
   map snd (filter (\<lambda>(c, x). c \<noteq> name) (zip cols (map (\<lambda>(c, x). if c = name then v else x) (zip cols r))))
   = map snd (filter (\<lambda>(c, x). c \<noteq> name) (zip cols r))"
  by (induction r cols rule: list_induct2) auto

lemma drop_cells_fresh:
  "name \<notin> set cols \<Longrightarrow> length r = length cols \<Longrightarrow> drop_cells cols name r = r"
proof -
  assume fresh: "name \<notin> set cols" and len: "length r = length cols"
  have "filter (\<lambda>(c, x). c \<noteq> name) (zip cols r) = zip cols r"
    using fresh by (intro filter_True) (auto dest: set_zip_leftD)
  with len show ?thesis by (simp add: drop_cells_def)
qed

lemma drop_cells_set_cell:
  assumes len: "length r = length cols"
  shows "drop_cells (if name \<in> set cols then cols else cols @ [name]) name (set_cell cols name v r)
         = drop_cells cols name r"
proof (cases "name \<in> set cols")
  case True
  with len show ?thesis by (simp add: drop_cells_def set_cell_def drop_cells_set_cell_old)
next
  case False
  with len show ?thesis by (simp add: drop_cells_def set_cell_def)
qed

lemma fst_number_rows: "p \<in> set (number_rows rs) \<Longrightarrow> fst p \<in> set rs"
  by (cases p) (auto simp: number_rows_def dest: set_zip_leftD)

lemma fst_row_number_over: "p \<in> set (row_number_over k ord rs) \<Longrightarrow> fst p \<in> set rs"
  by (auto simp: row_number_over_def set_sort_rows dest!: fst_number_rows)

lemma top_in_rows:
  "kv \<in> set (map (\<lambda>r. cell_at r k) rs) \<Longrightarrow>
   hd (sort_rows ord (filter (\<lambda>r. cell_at r k = kv) rs)) \<in> set rs \<and>
   cell_at (hd (sort_rows ord (filter (\<lambda>r. cell_at r k = kv) rs))) k = kv"
proof -
  assume "kv \<in> set (map (\<lambda>r. cell_at r k) rs)"
  then have "filter (\<lambda>r. cell_at r k = kv) rs \<noteq> []" by (auto simp: filter_empty_conv)
  then have "hd (sort_rows ord (filter (\<lambda>r. cell_at r k = kv) rs)) \<in> set (filter (\<lambda>r. cell_at r k = kv) rs)"
    by (rule hd_sort_rows_in)
  then show ?thesis by simp
qed

lemma normalize_cdc_latest_eq:
  assumes wf: "well_formed df"
    and k: "resolve (columns df) key_col = Inr k"
    and s: "resolve (columns df) seq_col = Inr s"
    and t: "resolve (columns df) ts_col = Inr t"
    and tb: "tiebreakers = None \<or> tiebreakers = Some []"
    and i: "resolve (if ''_rn'' \<in> set (columns df) then columns df else columns df @ [''_rn'']) ''_rn'' = Inr i"
  shows "normalize_cdc_latest df key_col seq_col ts_col tiebreakers =
         Inr \<lparr>columns = filter (\<lambda>c. c \<noteq> ''_rn'') (columns df),
              rows = map (\<lambda>kv. drop_cells (columns df) ''_rn''
                               (hd (sort_rows [s, t] (filter (\<lambda>r. cell_at r k = kv) (keep_first (\<lambda>r. r) (rows df))))))
                         (remdups (map (\<lambda>r. cell_at r k) (keep_first (\<lambda>r. r) (rows df))))\<rparr>"
proof -
  let ?cols = "columns df"
  let ?cols' = "if ''_rn'' \<in> set ?cols then ?cols else ?cols @ [''_rn'']"
  let ?base = "keep_first (\<lambda>r. r) (rows df)"
  let ?num = "row_number_over k [s, t] ?base"
  let ?g = "\<lambda>(r, n). set_cell ?cols ''_rn'' (Some (IntV n)) r"
  let ?top = "\<lambda>kv. hd (sort_rows [s, t] (filter (\<lambda>r. cell_at r k = kv) ?base))"
  let ?keys = "remdups (map (\<lambda>r. cell_at r k) ?base)"
  have len: "length r = length ?cols" if "r \<in> set ?base" for r
    using that wf set_keep_first_subset [of "\<lambda>r. r" "rows df"]
    by (auto simp: well_formed_def list_all_iff)
  have tbs: "(case tiebreakers of None \<Rightarrow> [] | Some l \<Rightarrow> l) = []"
    using tb by auto
  have oe: "order_exprs seq_col ts_col [] = Inr [DescNullsLast seq_col, DescNullsLast ts_col]"
    by (simp add: order_exprs_def desc_nulls_last_def)
  have ranked: "withColumn_row_number (df\<lparr>rows := ?base\<rparr>) ''_rn''
                  \<lparr>partitionBy = key_col, orderBy = [DescNullsLast seq_col, DescNullsLast ts_col]\<rparr>
                = Inr \<lparr>columns = ?cols', rows = map ?g ?num\<rparr>"
    using k s t by (simp add: withColumn_row_number_def)
  have keep: "filter (\<lambda>r. cell_at r i = Some (IntV 1)) (map ?g ?num)
              = map ?g (filter (\<lambda>(r, n). n = 1) ?num)"
  proof -
    have "filter ((\<lambda>r. cell_at r i = Some (IntV 1)) \<circ> ?g) ?num = filter (\<lambda>(r, n). n = 1) ?num"
    proof (rule filter_cong [OF refl])
      fix p assume "p \<in> set ?num"
      then have "length (fst p) = length ?cols" using fst_row_number_over len by blast
      then have "cell_at (set_cell ?cols ''_rn'' (Some (IntV (snd p))) (fst p)) i = Some (IntV (snd p))"
        using i by (rule cell_at_set_cell)
      then show "((\<lambda>r. cell_at r i = Some (IntV 1)) \<circ> ?g) p = (case p of (r, n) \<Rightarrow> n = 1)"
        by (cases p) simp
    qed
    then show ?thesis by (simp add: filter_map)
  qed
  have kept: "filter_eq \<lparr>columns = ?cols', rows = map ?g ?num\<rparr> ''_rn'' (IntV 1)
              = Inr \<lparr>columns = ?cols', rows = map ?g (filter (\<lambda>(r, n). n = 1) ?num)\<rparr>"
    using i keep by (simp add: filter_eq_def)
  have tops: "map (drop_cells ?cols' ''_rn'') (map ?g (filter (\<lambda>(r, n). n = 1) ?num))
              = map (\<lambda>kv. drop_cells ?cols ''_rn'' (?top kv)) ?keys"
  proof -
    have "map (drop_cells ?cols' ''_rn'') (map ?g (filter (\<lambda>(r, n). n = 1) ?num))
          = map (\<lambda>kv. drop_cells ?cols' ''_rn'' (set_cell ?cols ''_rn'' (Some (IntV 1)) (?top kv))) ?keys"
      by (simp add: filter_row_number_over comp_def)
    also have "\<dots> = map (\<lambda>kv. drop_cells ?cols ''_rn'' (?top kv)) ?keys"
    proof (rule map_cong [OF refl])
      fix kv assume "kv \<in> set ?keys"
      then have "?top kv \<in> set ?base" using top_in_rows [of kv k ?base "[s, t]"] by simp
      then have "length (?top kv) = length ?cols" by (rule len)
      then show "drop_cells ?cols' ''_rn'' (set_cell ?cols ''_rn'' (Some (IntV 1)) (?top kv))
                 = drop_cells ?cols ''_rn'' (?top kv)"
        by (rule drop_cells_set_cell)
    qed
    finally show ?thesis .
  qed
  have cols: "filter (\<lambda>c. c \<noteq> ''_rn'') ?cols' = filter (\<lambda>c. c \<noteq> ''_rn'') ?cols"
    by simp
  have "drop_column \<lparr>columns = ?cols', rows = map ?g (filter (\<lambda>(r, n). n = 1) ?num)\<rparr> ''_rn''
        = \<lparr>columns = filter (\<lambda>c. c \<noteq> ''_rn'') ?cols, rows = map (\<lambda>kv. drop_cells ?cols ''_rn'' (?top kv)) ?keys\<rparr>"
    unfolding drop_column_def using tops cols by simp
  then show ?thesis
    unfolding normalize_cdc_latest_def Let_def tbs
    by (simp only: dedup_by_default [OF wf] oe ranked kept sum.case)
qed

lemma dedup_by_total:
  "dedup_by df [] = Inr (df\<lparr>rows := keep_first (project (columns df) (columns df)) (rows df)\<rparr>)"
  by (simp add: dedup_by_def dropDuplicates_def)

lemma order_exprs_Cons: "order_exprs seq_col ts_col (c # cs) = Inl AttributeError"
  by (simp add: order_exprs_def desc_null_lasts_def)

lemma normalize_cdc_latest_tiebreakers:
  "normalize_cdc_latest df key_col seq_col ts_col (Some (c # cs)) = Inl AttributeError"
  by (simp add: normalize_cdc_latest_def dedup_by_total order_exprs_Cons)

lemma resolve_Inl: "resolve cols c = Inl e \<Longrightarrow> e = AnalysisException"
  by (auto simp: resolve_def split: list.splits)

lemma filter_eq_Inl: "resolve (columns d) name = Inl e \<Longrightarrow> filter_eq d name v = Inl e"
  by (simp add: filter_eq_def)

lemma normalize_cdc_latest_unresolved:
  assumes bad: "resolve (columns df) key_col = Inl e \<or> resolve (columns df) seq_col = Inl e
           \<or> resolve (columns df) ts_col = Inl e
           \<or> resolve (if ''_rn'' \<in> set (columns df) then columns df else columns df @ [''_rn'']) ''_rn'' = Inl e"
    and tb: "tiebreakers = None \<or> tiebreakers = Some []"
  shows "normalize_cdc_latest df key_col seq_col ts_col tiebreakers = Inl AnalysisException"
proof -
  let ?w = "\<lparr>partitionBy = key_col, orderBy = [DescNullsLast seq_col, DescNullsLast ts_col]\<rparr>"
  let ?base = "df\<lparr>rows := keep_first (project (columns df) (columns df)) (rows df)\<rparr>"
  have tbs: "(case tiebreakers of None \<Rightarrow> [] | Some l \<Rightarrow> l) = []"
    using tb by auto
  have oe: "order_exprs seq_col ts_col [] = Inr [DescNullsLast seq_col, DescNullsLast ts_col]"
    by (simp add: order_exprs_def desc_nulls_last_def)
  have e: "e = AnalysisException" using bad resolve_Inl by blast
  have "(case withColumn_row_number ?base ''_rn'' ?w of
           Inl e \<Rightarrow> Inl e
         | Inr ranked \<Rightarrow> (case filter_eq ranked ''_rn'' (IntV 1) of
                Inl e \<Rightarrow> Inl e | Inr kept \<Rightarrow> Inr (drop_column kept ''_rn'')))
        = Inl AnalysisException"
  proof (cases "resolve (columns df) key_col")
    case (Inl x)
    then show ?thesis by (simp add: withColumn_row_number_def resolve_Inl)
  next
    case k: (Inr k)
    show ?thesis
    proof (cases "resolve (columns df) seq_col")
      case (Inl x)
      then show ?thesis using k by (simp add: withColumn_row_number_def resolve_Inl)
    next
      case s: (Inr s)
      show ?thesis
      proof (cases "resolve (columns df) ts_col")
        case (Inl x)
        then show ?thesis using k s by (simp add: withColumn_row_number_def resolve_Inl)
      next
        case t: (Inr t)
        obtain X where ranked: "withColumn_row_number ?base ''_rn'' ?w =
            Inr \<lparr>columns = (if ''_rn'' \<in> set (columns df) then columns df else columns df @ [''_rn'']), rows = X\<rparr>"
          using k s t by (simp add: withColumn_row_number_def)
        have r: "resolve (if ''_rn'' \<in> set (columns df) then columns df else columns df @ [''_rn'']) ''_rn'' = Inl e"
          using bad k s t by simp
        have "filter_eq \<lparr>columns = (if ''_rn'' \<in> set (columns df) then columns df else columns df @ [''_rn'']), rows = X\<rparr>
                ''_rn'' (IntV 1) = Inl e"
          by (rule filter_eq_Inl) (simp only: dataframe.select_convs r)
        then show ?thesis using e by (simp only: ranked sum.case)
      qed
    qed
  qed
  then show ?thesis
    unfolding normalize_cdc_latest_def Let_def tbs dedup_by_total oe by simp
qed

lemma normalize_cdc_latest_Inr:
  assumes ok: "normalize_cdc_latest df key_col seq_col ts_col tiebreakers = Inr out"
  shows "(tiebreakers = None \<or> tiebreakers = Some []) \<and>
         (\<exists>k s t i. resolve (columns df) key_col = Inr k \<and> resolve (columns df) seq_col = Inr s
            \<and> resolve (columns df) ts_col = Inr t
            \<and> resolve (if ''_rn'' \<in> set (columns df) then columns df else columns df @ [''_rn'']) ''_rn'' = Inr i)"
proof -
  have tb: "tiebreakers = None \<or> tiebreakers = Some []"
  proof (cases tiebreakers)
    case None
    then show ?thesis by simp
  next
    case (Some l)
    with ok show ?thesis by (cases l) (simp_all add: normalize_cdc_latest_tiebreakers)
  qed
  have "\<not> (resolve (columns df) key_col = Inl e \<or> resolve (columns df) seq_col = Inl e
           \<or> resolve (columns df) ts_col = Inl e
           \<or> resolve (if ''_rn'' \<in> set (columns df) then columns df else columns df @ [''_rn'']) ''_rn'' = Inl e)" for e
    using normalize_cdc_latest_unresolved [OF _ tb, of df key_col e seq_col ts_col] ok by auto
  then show ?thesis using tb
    by (metis sum.exhaust)
qed

lemma cell_of_resolved: "resolve (columns df) c = Inr i \<Longrightarrow> cell_of df r c = cell_at r i"
  by (simp add: cell_of_def)

lemma outranks_resolved:
  assumes "resolve (columns df) seq_col = Inr s" and "resolve (columns df) ts_col = Inr t"
  shows "outranks df [seq_col, ts_col] a b = sorts_before [s, t] a b"
proof -
  show ?thesis
    using assms
    by (cases "cell_at a s"; cases "cell_at b s"; cases "cell_at a t"; cases "cell_at b t")
       (auto simp: cell_of_resolved val_less_irrefl)
qed


lemma filter_map_distinct_keys:
  assumes "distinct ks" and "k0 \<in> set ks" and "\<And>k. k \<in> set ks \<Longrightarrow> key (f k) = k"
  shows "filter (\<lambda>q. key q = k0) (map f ks) = [f k0]"
  using assms
proof (induction ks)
  case Nil
  then show ?case by simp
next
  case (Cons k ks)
  show ?case
  proof (cases "k = k0")
    case True
    then have "k0 \<notin> set ks" using Cons.prems(1) by simp
    then have "filter (\<lambda>q. key q = k0) (map f ks) = []"
      using Cons.prems(3) by (auto simp: filter_empty_conv)
    with True Cons.prems(3) show ?thesis by simp
  next
    case False
    then have "k0 \<in> set ks" using Cons.prems(2) by simp
    then have "filter (\<lambda>q. key q = k0) (map f ks) = [f k0]"
      using Cons.prems by (intro Cons.IH) auto
    with False Cons.prems(3) show ?thesis by simp
  qed
qed

lemma set_keep_first_id: "set (keep_first (\<lambda>r. r) xs) = set xs"
  by (rule set_keep_first_inj) simp

lemma keep_first_distinct: "distinct xs \<Longrightarrow> keep_first (\<lambda>r. r) xs = xs"
proof (induction xs)
  case Nil
  then show ?case by simp
next
  case (Cons x xs)
  then have "filter (\<lambda>y. y \<noteq> x) xs = xs" by (intro filter_True) auto
  with Cons show ?case by simp
qed

lemma dropDuplicates_idem:
  "dropDuplicates df names = Inr out \<Longrightarrow> dropDuplicates out names = Inr out"
  by (auto simp: dropDuplicates_def keep_first_idem split: if_splits)

lemma normalize_cdc_latest_batch:
  assumes "list_all (\<lambda>r. length r = 4) rs"
  shows "normalize_cdc_latest (batch rs) ''id'' ''seq_num'' ''event_time'' None =
         Inr (batch (map (\<lambda>kv. hd (sort_rows [2, 3] (filter (\<lambda>r. cell_at r 0 = kv) (keep_first (\<lambda>r. r) rs))))
                         (remdups (map (\<lambda>r. cell_at r 0) (keep_first (\<lambda>r. r) rs)))))"
proof -
  let ?base = "keep_first (\<lambda>r. r) rs"
  let ?top = "\<lambda>kv. hd (sort_rows [2, 3] (filter (\<lambda>r. cell_at r 0 = kv) ?base))"
  have four: "length cdc_columns = 4" by (simp add: cdc_columns_def)
  have wf: "well_formed (batch rs)"
    using assms by (simp add: well_formed_def batch_def four)
  have len: "length r = 4" if "r \<in> set ?base" for r
    using that assms set_keep_first_subset [of "\<lambda>r. r" rs] by (auto simp: list_all_iff)
  have "map (\<lambda>kv. drop_cells cdc_columns ''_rn'' (?top kv)) (remdups (map (\<lambda>r. cell_at r 0) ?base))
        = map ?top (remdups (map (\<lambda>r. cell_at r 0) ?base))"
  proof (rule map_cong [OF refl])
    fix kv assume "kv \<in> set (remdups (map (\<lambda>r. cell_at r 0) ?base))"
    then have "?top kv \<in> set ?base" using top_in_rows [of kv 0 ?base "[2, 3]"] by simp
    then have "length (?top kv) = length cdc_columns" using len by (simp add: cdc_columns_def)
    then show "drop_cells cdc_columns ''_rn'' (?top kv) = ?top kv"
      by (intro drop_cells_fresh) (simp_all add: cdc_columns_def)
  qed
  moreover have "normalize_cdc_latest (batch rs) ''id'' ''seq_num'' ''event_time'' None =
         Inr \<lparr>columns = filter (\<lambda>c. c \<noteq> ''_rn'') (columns (batch rs)),
              rows = map (\<lambda>kv. drop_cells (columns (batch rs)) ''_rn''
                               (hd (sort_rows [2, 3] (filter (\<lambda>r. cell_at r 0 = kv) (keep_first (\<lambda>r. r) (rows (batch rs)))))))
                         (remdups (map (\<lambda>r. cell_at r 0) (keep_first (\<lambda>r. r) (rows (batch rs)))))\<rparr>"
    by (rule normalize_cdc_latest_eq [OF wf, where i = 4])
       (simp_all add: batch_def cdc_columns_def resolve_def positions_def)
  ultimately show ?thesis by (simp add: batch_def cdc_columns_def)
qed

lemma cell_of_batch:
  "cell_of (batch rs) r ''id'' = cell_at r 0"
  "cell_of (batch rs) r ''op'' = cell_at r 1"
  "cell_of (batch rs) r ''seq_num'' = cell_at r 2"
  "cell_of (batch rs) r ''event_time'' = cell_at r 3"
  by (simp_all add: cell_of_def batch_def cdc_columns_def resolve_def positions_def
        numeral_2_eq_2 numeral_3_eq_3)

lemma cell_at_event:
  "cell_at (event k opn s t) 0 = Some (StrV k)"
  "cell_at (event k opn s t) (Suc 0) = Some (StrV opn)"
  "cell_at (event k opn s t) 2 = s"
  "cell_at (event k opn s t) 3 = t"
  by (simp_all add: event_def cell_at_def)

section \<open>The records of a successful resolution\<close>

lemma normalize_cdc_latest_winners:
  assumes wf: "well_formed df"
    and ok: "normalize_cdc_latest df key_col seq_col ts_col tiebreakers = Inr out"
  shows "\<exists>ws. rows out = map (drop_cells (columns df) ''_rn'') ws
           \<and> columns out = filter (\<lambda>c. c \<noteq> ''_rn'') (columns df)
           \<and> set ws \<subseteq> set (rows df)
           \<and> distinct (map (\<lambda>w. cell_of df w key_col) ws)
           \<and> (\<lambda>w. cell_of df w key_col) ` set ws = (\<lambda>r. cell_of df r key_col) ` set (rows df)
           \<and> (\<forall>w \<in> set ws. \<forall>q \<in> set (rows df).
                 cell_of df q key_col = cell_of df w key_col
                 \<longrightarrow> \<not> outranks df [seq_col, ts_col] q w)"
proof -
  from normalize_cdc_latest_Inr [OF ok] obtain k s t i where
    tb: "tiebreakers = None \<or> tiebreakers = Some []"
    and k: "resolve (columns df) key_col = Inr k"
    and s: "resolve (columns df) seq_col = Inr s"
    and t: "resolve (columns df) ts_col = Inr t"
    and i: "resolve (if ''_rn'' \<in> set (columns df) then columns df else columns df @ [''_rn'']) ''_rn'' = Inr i"
    by blast
  let ?base = "keep_first (\<lambda>r. r) (rows df)"
  let ?keys = "remdups (map (\<lambda>r. cell_at r k) ?base)"
  let ?top = "\<lambda>kv. hd (sort_rows [s, t] (filter (\<lambda>r. cell_at r k = kv) ?base))"
  let ?ws = "map ?top ?keys"
  have key: "cell_of df r key_col = cell_at r k" for r
    using k by (rule cell_of_resolved)
  have out: "out = \<lparr>columns = filter (\<lambda>c. c \<noteq> ''_rn'') (columns df),
                    rows = map (\<lambda>kv. drop_cells (columns df) ''_rn'' (?top kv)) ?keys\<rparr>"
    using normalize_cdc_latest_eq [OF wf k s t tb i] ok by simp
  have top: "?top kv \<in> set ?base \<and> cell_at (?top kv) k = kv" if "kv \<in> set ?keys" for kv
    using that top_in_rows [of kv k ?base "[s, t]"] by simp
  have keys_ws: "map (\<lambda>w. cell_at w k) ?ws = ?keys"
  proof -
    have "map (\<lambda>kv. cell_at (?top kv) k) ?keys = ?keys"
    proof (rule map_idI)
      fix kv assume "kv \<in> set ?keys"
      then show "cell_at (?top kv) k = kv" using top by simp
    qed
    then show ?thesis by (simp add: comp_def)
  qed
  have 1: "rows out = map (drop_cells (columns df) ''_rn'') ?ws"
    by (simp add: out comp_def)
  have 2: "columns out = filter (\<lambda>c. c \<noteq> ''_rn'') (columns df)"
    by (simp add: out)
  have 3: "set ?ws \<subseteq> set (rows df)"
    using top by (auto simp: set_keep_first_id)
  have 4: "distinct (map (\<lambda>w. cell_of df w key_col) ?ws)"
    unfolding key keys_ws by simp
  have 5: "(\<lambda>w. cell_of df w key_col) ` set ?ws = (\<lambda>r. cell_of df r key_col) ` set (rows df)"
  proof -
    have "(\<lambda>w. cell_at w k) ` set ?ws = set (map (\<lambda>w. cell_at w k) ?ws)"
      by (simp only: set_map)
    also have "\<dots> = set ?keys" by (simp only: keys_ws)
    also have "\<dots> = (\<lambda>r. cell_at r k) ` set (rows df)" by (simp add: set_keep_first_id)
    finally show ?thesis unfolding key .
  qed
  have 6: "\<not> outranks df [seq_col, ts_col] q w"
    if w: "w \<in> set ?ws" and q: "q \<in> set (rows df)"
      and same: "cell_of df q key_col = cell_of df w key_col" for w q
  proof -
    from w obtain kv where kv: "kv \<in> set ?keys" "w = ?top kv" by auto
    then have "cell_at w k = kv" using top by simp
    then have "q \<in> set (filter (\<lambda>r. cell_at r k = kv) ?base)"
      using q same by (simp add: key set_keep_first_id)
    then have "\<not> sorts_before [s, t] q w"
      unfolding kv(2) by (rule hd_sort_rows_top)
    then show ?thesis unfolding outranks_resolved [OF s t] .
  qed
  from 1 2 3 4 5 6 show ?thesis by blast
qed

lemma drop_cells_fresh_all:
  assumes "well_formed df" and "''_rn'' \<notin> set (columns df)" and "set ws \<subseteq> set (rows df)"
  shows "map (drop_cells (columns df) ''_rn'') ws = ws"
proof (rule map_idI)
  fix w assume "w \<in> set ws"
  then have "length w = length (columns df)"
    using assms(1,3) by (auto simp: well_formed_def list_all_iff)
  with assms(2) show "drop_cells (columns df) ''_rn'' w = w" by (rule drop_cells_fresh)
qed


section \<open>Properties of the text functions\<close>









section \<open>The deduplication contract\<close>

text \<open>
  Claim C6. Called without keys, \<open>dedup_by\<close> compares whole rows: it never fails, keeps
  the columns, keeps every distinct row of the input exactly once (so two rows that share
  a key and differ elsewhere both survive), leaves a duplicate-free collection as it is,
  and is idempotent. Idempotence holds for every list of keys for which the call succeeds.
\<close>

theorem dedup_by_whole_row_idempotent:
  assumes "well_formed df"
  shows "\<exists>out. dedup_by df [] = Inr out
           \<and> columns out = columns df
           \<and> set (rows out) = set (rows df)
           \<and> distinct (rows out)
           \<and> (distinct (rows df) \<longrightarrow> rows out = rows df)
           \<and> dedup_by out [] = Inr out
           \<and> (\<forall>keys res. dedup_by df keys = Inr res \<longrightarrow> dedup_by res keys = Inr res)"
proof -
  let ?out = "df\<lparr>rows := keep_first (\<lambda>r. r) (rows df)\<rparr>"
  have out: "dedup_by df [] = Inr ?out" using assms by (rule dedup_by_default)
  have idem: "dedup_by res keys = Inr res" if "dedup_by df keys = Inr res" for keys res
  proof -
    have cols: "columns res = columns df"
      using that by (auto simp: dedup_by_def dropDuplicates_def split: if_splits)
    from that have "dropDuplicates res (if keys \<noteq> [] then keys else columns df) = Inr res"
      unfolding dedup_by_def by (rule dropDuplicates_idem)
    then show ?thesis by (cases "keys = []") (simp_all add: dedup_by_def cols)
  qed
  have "dedup_by ?out [] = Inr ?out" using out by (rule idem)
  then show ?thesis
    using out idem by (auto simp: set_keep_first_id distinct_keep_first keep_first_distinct)
qed

theorem dedup_by_whole_row_idempotent_witness:
  "well_formed (batch [event ''K1'' ''I'' (Some (IntV 1)) None,
                       event ''K1'' ''U'' (Some (IntV 2)) None,
                       event ''K1'' ''U'' (Some (IntV 2)) None])
   \<and> (\<exists>out. dedup_by (batch [event ''K1'' ''I'' (Some (IntV 1)) None,
                              event ''K1'' ''U'' (Some (IntV 2)) None,
                              event ''K1'' ''U'' (Some (IntV 2)) None]) [] = Inr out
         \<and> set (rows out) = {event ''K1'' ''I'' (Some (IntV 1)) None, event ''K1'' ''U'' (Some (IntV 2)) None}
         \<and> distinct (rows out)
         \<and> dedup_by out [] = Inr out)"
proof -
  let ?b = "batch [event ''K1'' ''I'' (Some (IntV 1)) None,
                   event ''K1'' ''U'' (Some (IntV 2)) None,
                   event ''K1'' ''U'' (Some (IntV 2)) None]"
  have wf: "well_formed ?b"
    by (simp add: well_formed_def batch_def cdc_columns_def event_def)
  have "set (rows ?b) = {event ''K1'' ''I'' (Some (IntV 1)) None, event ''K1'' ''U'' (Some (IntV 2)) None}"
    by (simp add: batch_def)
  with wf dedup_by_whole_row_idempotent [OF wf] show ?thesis by auto
qed

section \<open>Tiebreakers\<close>

text \<open>
  Claim C9. A call with a non-empty list of tiebreakers raises the AttributeError of the
  missing method \<open>desc_null_lasts\<close> while the ordering expressions are built, whatever the
  batch and the column names, and returns nothing. Hence a call that returns was made with
  the tiebreakers absent or empty: no ordering by a tiebreaker column is ever applied.
\<close>

theorem tiebreakers_raise_attribute_error:
  "normalize_cdc_latest df key_col seq_col ts_col (Some (c # cs)) = Inl AttributeError
   \<and> (\<forall>out. normalize_cdc_latest df key_col seq_col ts_col tiebreakers = Inr out
          \<longrightarrow> tiebreakers = None \<or> tiebreakers = Some [])"
  using normalize_cdc_latest_tiebreakers normalize_cdc_latest_Inr by blast

theorem tiebreakers_raise_attribute_error_witness:
  "normalize_cdc_latest (batch [event ''K1'' ''I'' (Some (IntV 1)) None]) ''id'' ''seq_num'' ''event_time'' None
     = Inr (batch [event ''K1'' ''I'' (Some (IntV 1)) None])
   \<and> normalize_cdc_latest (batch [event ''K1'' ''I'' (Some (IntV 1)) None]) ''id'' ''seq_num'' ''event_time''
       (Some [''op'']) = Inl AttributeError
   \<and> ((None :: string list option) = None \<or> (None :: string list option) = Some [])"
proof -
  have "normalize_cdc_latest (batch [event ''K1'' ''I'' (Some (IntV 1)) None]) ''id'' ''seq_num'' ''event_time'' None
     = Inr (batch [event ''K1'' ''I'' (Some (IntV 1)) None])"
    by (subst normalize_cdc_latest_batch) (simp_all add: event_def cell_at_def)
  then show ?thesis
    using tiebreakers_raise_attribute_error
      [of "batch [event ''K1'' ''I'' (Some (IntV 1)) None]" "''id''" "''seq_num''" "''event_time''"
          "''op''" "[]" None]
    by simp
qed

text \<open>
  Claim C1. The order the claim describes ranks by \<open>seq_num\<close>, then \<open>event_time\<close>, then the
  tiebreaker columns. On a batch whose two rows of one key agree on \<open>seq_num\<close> and
  \<open>event_time\<close> and differ in the tiebreaker \<open>updated_at\<close>, the call with that tiebreaker
  selects no winner at all: it raises.
\<close>

theorem tiebreaker_order_not_applied:
  "normalize_cdc_latest
     \<lparr>columns = [''id'', ''op'', ''seq_num'', ''event_time'', ''updated_at''],
      rows = [[Some (StrV ''K1''), Some (StrV ''U''), Some (IntV 2), Some (IntV 10), Some (IntV 100)],
              [Some (StrV ''K1''), Some (StrV ''U''), Some (IntV 2), Some (IntV 10), Some (IntV 200)]]\<rparr>
     ''id'' ''seq_num'' ''event_time'' (Some [''updated_at''])
   = Inl AttributeError"
  by (rule normalize_cdc_latest_tiebreakers)

section \<open>One record per key: the top-ranked row\<close>



section \<open>Deletes are retained\<close>



section \<open>Nulls in the ordering columns\<close>

text \<open>
  Claim C4, as stated, fails: the order is lexicographic, so a row with a higher
  \<open>seq_num\<close> and a null \<open>event_time\<close> wins over a row of the same key that has both
  values. Below, the second row has more complete ranking information than the first,
  and the first is the resolved record.
\<close>

theorem more_complete_row_can_lose:
  "more_complete
     (batch [event ''K1'' ''U'' (Some (IntV 5)) None, event ''K1'' ''I'' (Some (IntV 3)) (Some (IntV 0))])
     [''seq_num'', ''event_time'']
     (event ''K1'' ''I'' (Some (IntV 3)) (Some (IntV 0)))
     (event ''K1'' ''U'' (Some (IntV 5)) None)
   \<and> normalize_cdc_latest
       (batch [event ''K1'' ''U'' (Some (IntV 5)) None, event ''K1'' ''I'' (Some (IntV 3)) (Some (IntV 0))])
       ''id'' ''seq_num'' ''event_time'' None
     = Inr (batch [event ''K1'' ''U'' (Some (IntV 5)) None])"
proof -
  have "normalize_cdc_latest
       (batch [event ''K1'' ''U'' (Some (IntV 5)) None, event ''K1'' ''I'' (Some (IntV 3)) (Some (IntV 0))])
       ''id'' ''seq_num'' ''event_time'' None
     = Inr (batch [event ''K1'' ''U'' (Some (IntV 5)) None])"
    by (subst normalize_cdc_latest_batch) (simp_all add: event_def cell_at_def)
  then show ?thesis
    by (auto simp: more_complete_def cell_of_batch cell_at_event)
qed

text \<open>
  Claim C4, amended. A null in \<open>seq_num\<close> or \<open>event_time\<close> is no error: whether a call
  returns depends on the columns of the batch and on the tiebreakers argument, not on the
  cells. For rows \<open>a\<close> and \<open>b\<close> of one key: if \<open>a\<close> has a \<open>seq_num\<close> and \<open>b\<close> has none, or
  if they have the same \<open>seq_num\<close> and only \<open>a\<close> has an \<open>event_time\<close>, then \<open>a\<close> outranks
  \<open>b\<close>, and \<open>b\<close> is not a record of the output (for a batch without a column \<open>_rn\<close>). In
  the scenario of the specification (event A with a null \<open>seq_num\<close> and event time
  \<open>T0 + 5\<close>, event B with \<open>seq_num = 1\<close> and event time \<open>T0\<close>) the resolved record is B, in
  whichever order the two rows come.
\<close>

theorem null_ordering_cells_rank_last:
  assumes "well_formed df"
    and "normalize_cdc_latest df key_col seq_col ts_col tiebreakers = Inr out"
    and "a \<in> set (rows df)" and "b \<in> set (rows df)"
    and "cell_of df a key_col = cell_of df b key_col"
    and "(cell_of df a seq_col \<noteq> None \<and> cell_of df b seq_col = None)
         \<or> (cell_of df a seq_col = cell_of df b seq_col
             \<and> cell_of df a ts_col \<noteq> None \<and> cell_of df b ts_col = None)"
  shows "outranks df [seq_col, ts_col] a b
         \<and> (''_rn'' \<notin> set (columns df) \<longrightarrow> b \<notin> set (rows out))
         \<and> (\<forall>df'. well_formed df' \<and> columns df' = columns df
               \<longrightarrow> (\<exists>out'. normalize_cdc_latest df' key_col seq_col ts_col tiebreakers = Inr out'))
         \<and> normalize_cdc_latest
              (batch [event k opa None (Some (IntV (T0 + 5))), event k opb (Some (IntV 1)) (Some (IntV T0))])
              ''id'' ''seq_num'' ''event_time'' None
            = Inr (batch [event k opb (Some (IntV 1)) (Some (IntV T0))])
         \<and> normalize_cdc_latest
              (batch [event k opb (Some (IntV 1)) (Some (IntV T0)), event k opa None (Some (IntV (T0 + 5)))])
              ''id'' ''seq_num'' ''event_time'' None
            = Inr (batch [event k opb (Some (IntV 1)) (Some (IntV T0))])"
proof -
  have rank: "outranks df [seq_col, ts_col] a b"
    using assms(6)
    by (cases "cell_of df a seq_col"; cases "cell_of df b seq_col";
        cases "cell_of df a ts_col"; cases "cell_of df b ts_col") auto
  from normalize_cdc_latest_winners [OF assms(1,2)] obtain ws where
    ws: "rows out = map (drop_cells (columns df) ''_rn'') ws"
      "set ws \<subseteq> set (rows df)"
      "\<forall>w \<in> set ws. \<forall>q \<in> set (rows df).
         cell_of df q key_col = cell_of df w key_col \<longrightarrow> \<not> outranks df [seq_col, ts_col] q w"
    by blast
  have loses: "b \<notin> set (rows out)" if fresh: "''_rn'' \<notin> set (columns df)"
  proof
    assume "b \<in> set (rows out)"
    then have "b \<in> set ws"
      using drop_cells_fresh_all [OF assms(1) fresh ws(2)] ws(1) by simp
    then have "\<not> outranks df [seq_col, ts_col] a b"
      using ws(3) assms(3,5) by blast
    with rank show False by simp
  qed
  have returns: "\<exists>out'. normalize_cdc_latest df' key_col seq_col ts_col tiebreakers = Inr out'"
    if wf': "well_formed df'" and cols: "columns df' = columns df" for df'
  proof -
    from normalize_cdc_latest_Inr [OF assms(2)] obtain k s t i where
      "tiebreakers = None \<or> tiebreakers = Some []"
      "resolve (columns df') key_col = Inr k" "resolve (columns df') seq_col = Inr s"
      "resolve (columns df') ts_col = Inr t"
      "resolve (if ''_rn'' \<in> set (columns df') then columns df' else columns df' @ [''_rn'']) ''_rn'' = Inr i"
      unfolding cols by blast
    then show ?thesis
      using normalize_cdc_latest_eq [OF wf', of key_col k seq_col s ts_col t tiebreakers i] by blast
  qed
  have ex1: "normalize_cdc_latest
              (batch [event k opa None (Some (IntV (T0 + 5))), event k opb (Some (IntV 1)) (Some (IntV T0))])
              ''id'' ''seq_num'' ''event_time'' None
            = Inr (batch [event k opb (Some (IntV 1)) (Some (IntV T0))])"
    by (subst normalize_cdc_latest_batch) (simp_all add: event_def cell_at_def)
  have ex2: "normalize_cdc_latest
              (batch [event k opb (Some (IntV 1)) (Some (IntV T0)), event k opa None (Some (IntV (T0 + 5)))])
              ''id'' ''seq_num'' ''event_time'' None
            = Inr (batch [event k opb (Some (IntV 1)) (Some (IntV T0))])"
    by (subst normalize_cdc_latest_batch) (simp_all add: event_def cell_at_def)
  from rank loses returns ex1 ex2 show ?thesis by blast
qed

theorem null_ordering_cells_rank_last_witness:
  "well_formed (batch [event ''K1'' ''U'' None (Some (IntV 5)), event ''K1'' ''I'' (Some (IntV 1)) (Some (IntV 0))])
   \<and> normalize_cdc_latest
        (batch [event ''K1'' ''U'' None (Some (IntV 5)), event ''K1'' ''I'' (Some (IntV 1)) (Some (IntV 0))])
        ''id'' ''seq_num'' ''event_time'' None
      = Inr (batch [event ''K1'' ''I'' (Some (IntV 1)) (Some (IntV 0))])
   \<and> outranks
        (batch [event ''K1'' ''U'' None (Some (IntV 5)), event ''K1'' ''I'' (Some (IntV 1)) (Some (IntV 0))])
        [''seq_num'', ''event_time'']
        (event ''K1'' ''I'' (Some (IntV 1)) (Some (IntV 0))) (event ''K1'' ''U'' None (Some (IntV 5)))
   \<and> event ''K1'' ''U'' None (Some (IntV 5))
        \<notin> set (rows (batch [event ''K1'' ''I'' (Some (IntV 1)) (Some (IntV 0))]))"
proof -
  let ?a = "event ''K1'' ''I'' (Some (IntV 1)) (Some (IntV 0))"
  let ?b = "event ''K1'' ''U'' None (Some (IntV 5))"
  let ?df = "batch [?b, ?a]"
  have wf: "well_formed ?df"
    by (simp add: well_formed_def batch_def cdc_columns_def event_def)
  have run: "normalize_cdc_latest ?df ''id'' ''seq_num'' ''event_time'' None = Inr (batch [?a])"
    by (subst normalize_cdc_latest_batch) (simp_all add: event_def cell_at_def)
  have a: "?a \<in> set (rows ?df)" and b: "?b \<in> set (rows ?df)" by (simp_all add: batch_def)
  have key: "cell_of ?df ?a ''id'' = cell_of ?df ?b ''id''"
    by (simp add: cell_of_batch cell_at_event)
  have nulls: "(cell_of ?df ?a ''seq_num'' \<noteq> None \<and> cell_of ?df ?b ''seq_num'' = None)
         \<or> (cell_of ?df ?a ''seq_num'' = cell_of ?df ?b ''seq_num''
             \<and> cell_of ?df ?a ''event_time'' \<noteq> None \<and> cell_of ?df ?b ''event_time'' = None)"
    by (simp add: cell_of_batch cell_at_event)
  have fresh: "''_rn'' \<notin> set (columns ?df)" by (simp add: batch_def cdc_columns_def)
  from null_ordering_cells_rank_last [OF wf run a b key nulls] fresh wf run
  show ?thesis by blast
qed

section \<open>Row order and duplicates\<close>






section \<open>The columns of the output\<close>




section \<open>The text normaliser\<close>




end
